theory Spec2Isabelle
  imports Main "HOL-Library.Word"
begin

section \<open>JavaScript strings\<close>

text \<open>
  A JavaScript string is a sequence of UTF-16 code units. None of the regular expressions of
  the two services carries the \<open>u\<close> flag, so every character class below is matched against
  one code unit at a time.
\<close>

type_synonym jschar = "16 word"
type_synonym jsstring = "jschar list"

text \<open>An ASCII literal as a JavaScript string.\<close>

definition js :: "string \<Rightarrow> jsstring" where
  "js s = map (\<lambda>c. of_nat (of_char c)) s"

text \<open>
  The class \<open>\s\<close> of a JavaScript regular expression, which is also the set that
  \<open>String.prototype.trim\<close> removes: the WhiteSpace and LineTerminator code points.
\<close>

definition is_space :: "jschar \<Rightarrow> bool" where
  "is_space c \<longleftrightarrow>
     c = 0x9 \<or> c = 0xA \<or> c = 0xB \<or> c = 0xC \<or> c = 0xD \<or> c = 0x20 \<or> c = 0xA0 \<or>
     c = 0x1680 \<or> (0x2000 \<le> c \<and> c \<le> 0x200A) \<or> c = 0x2028 \<or> c = 0x2029 \<or>
     c = 0x202F \<or> c = 0x205F \<or> c = 0x3000 \<or> c = 0xFEFF"

definition not_space :: "jschar \<Rightarrow> bool" where
  "not_space c \<longleftrightarrow> \<not> is_space c"

abbreviation SPACE :: jschar where "SPACE \<equiv> 0x20"
abbreviation LPAREN :: jschar where "LPAREN \<equiv> 0x28"
abbreviation RPAREN :: jschar where "RPAREN \<equiv> 0x29"

section \<open>The cleaning pre-pass of \<open>speak\<close>\<close>

text \<open>
  \<open>text.replace(/\([^)]*\)/g, '')\<close>: scanning from the left, an opening parenthesis that has
  a closing one somewhere after it is removed together with everything up to the first
  closing parenthesis; any other code unit is kept.
\<close>

function strip_parens :: "jsstring \<Rightarrow> jsstring" where
  "strip_parens [] = []"
| "strip_parens (c # cs) =
     (if c = LPAREN \<and> RPAREN \<in> set cs
      then strip_parens (tl (dropWhile (\<lambda>x. x \<noteq> RPAREN) cs))
      else c # strip_parens cs)"
  by pat_completeness auto
termination
proof (relation "measure length")
  show "wf (measure length)" by simp
next
  fix c :: jschar and cs :: jsstring
  have "length (tl (dropWhile (\<lambda>x. x \<noteq> RPAREN) cs)) \<le> length cs"
    using length_dropWhile_le [of "\<lambda>x. x \<noteq> RPAREN" cs] by simp
  then show "(tl (dropWhile (\<lambda>x. x \<noteq> RPAREN) cs), c # cs) \<in> measure length"
    by simp
next
  fix c :: jschar and cs :: jsstring
  show "(cs, c # cs) \<in> measure length" by simp
qed

text \<open>\<open>.replace(/\s+/g, ' ')\<close>: every maximal run of whitespace becomes one U+0020.\<close>

function collapse_ws :: "jsstring \<Rightarrow> jsstring" where
  "collapse_ws [] = []"
| "collapse_ws (c # cs) =
     (if is_space c then SPACE # collapse_ws (dropWhile is_space cs)
      else c # collapse_ws cs)"
  by pat_completeness auto
termination
proof (relation "measure length")
  show "wf (measure length)" by simp
next
  fix c :: jschar and cs :: jsstring
  have "length (dropWhile is_space cs) \<le> length cs"
    by (rule length_dropWhile_le)
  then show "(dropWhile is_space cs, c # cs) \<in> measure length" by simp
next
  fix c :: jschar and cs :: jsstring
  show "(cs, c # cs) \<in> measure length" by simp
qed

text \<open>\<open>.trim()\<close>: whitespace is removed from both ends.\<close>

definition trim :: "jsstring \<Rightarrow> jsstring" where
  "trim s = rev (dropWhile is_space (rev (dropWhile is_space s)))"

definition cleanedText :: "jsstring \<Rightarrow> jsstring" where
  "cleanedText t = trim (collapse_ws (strip_parens t))"

section \<open>Tokenising: \<open>cleanedText.split(/(\s+)/)\<close>\<close>

text \<open>
  With a capture group, \<open>split\<close> returns the pieces between the matches and the matches
  themselves, alternating and in order: piece, whitespace, piece, ..., piece. A piece is
  empty when the string starts or ends with whitespace, and the empty string splits into
  the one-element list holding the empty string.
\<close>

function split_ws :: "jsstring \<Rightarrow> jsstring list" where
  "split_ws s =
     (let piece = takeWhile not_space s; r = dropWhile not_space s
      in if r = [] then [piece]
         else piece # takeWhile is_space r # split_ws (dropWhile is_space r))"
  by pat_completeness auto
termination
proof (relation "measure length")
  show "wf (measure length)" by simp
next
  fix s piece r :: jsstring
  assume r: "r = dropWhile not_space s" and ne: "r \<noteq> []"
  from ne have "is_space (hd r)"
    using hd_dropWhile [of not_space s] r by (simp add: not_space_def)
  with ne have "length (dropWhile is_space r) < length r"
    by (cases r) (simp_all add: le_imp_less_Suc length_dropWhile_le)
  moreover have "length r \<le> length s"
    unfolding r by (rule length_dropWhile_le)
  ultimately show "(dropWhile is_space r, s) \<in> measure length" by simp
qed

declare split_ws.simps [simp del]

section \<open>Grouping by language\<close>

text \<open>\<open>/^\s+$/.test(word)\<close>: the token is not empty and is whitespace throughout.\<close>

definition is_ws_token :: "jsstring \<Rightarrow> bool" where
  "is_ws_token w \<longleftrightarrow> w \<noteq> [] \<and> list_all is_space w"

text \<open>
  The character class of \<open>isRussian\<close>, written with its code points: the small letters
  U+0430 to U+044F, the capital letters U+0410 to U+042F, and the two letters io, U+0451
  and U+0401, which lie outside both ranges.
\<close>

definition russian_letter :: "jschar \<Rightarrow> bool" where
  "russian_letter c \<longleftrightarrow>
     (0x430 \<le> c \<and> c \<le> 0x44F) \<or> (0x410 \<le> c \<and> c \<le> 0x42F) \<or> c = 0x451 \<or> c = 0x401"

definition isRussian :: "jsstring \<Rightarrow> bool" where
  "isRussian w = list_ex russian_letter w"

text \<open>
  A group as pushed by the loop. The language is the value of \<open>currentLang\<close> at the moment
  of the push, which the type checker is told is not null (\<open>currentLang!\<close>) but which is
  null at run time if no word has been classified yet; hence the option.
\<close>

record 'l group =
  lang :: "'l option"
  gtext :: jsstring

text \<open>The loop state: \<open>groups\<close>, \<open>currentLang\<close> and \<open>buffer\<close>.\<close>

type_synonym 'l seg_state = "'l group list \<times> 'l option \<times> jsstring"

subsection \<open>The web client (\<open>geminiService.ts\<close>)\<close>

datatype web_lang = EnUS | RuRU

fun web_step :: "web_lang seg_state \<Rightarrow> jsstring \<Rightarrow> web_lang seg_state" where
  "web_step (groups, currentLang, buffer) word =
     (if is_ws_token word then (groups, currentLang, buffer @ word)
      else let l = (if isRussian word then RuRU else EnUS)
           in case currentLang of
                None \<Rightarrow> (groups, Some l, word)
              | Some cur \<Rightarrow>
                  if l = cur then (groups, currentLang, buffer @ word)
                  else (groups @ [\<lparr>lang = currentLang, gtext = buffer\<rparr>], Some l, word))"

definition finish :: "'l seg_state \<Rightarrow> 'l group list" where
  "finish st =
     (case st of (groups, currentLang, buffer) \<Rightarrow>
        if buffer \<noteq> [] then groups @ [\<lparr>lang = currentLang, gtext = buffer\<rparr>] else groups)"

definition web_groups :: "jsstring \<Rightarrow> web_lang group list" where
  "web_groups t = finish (foldl web_step ([], None, []) (split_ws (cleanedText t)))"

subsection \<open>The native client (\<open>voiceService.ts\<close>)\<close>

fun native_step :: "string seg_state \<Rightarrow> jsstring \<Rightarrow> string seg_state" where
  "native_step (groups, currentLang, buffer) word =
     (if is_ws_token word then (groups, currentLang, buffer @ word)
      else let l = (if isRussian word then ''ru'' else ''en'')
           in case currentLang of
                None \<Rightarrow> (groups, Some l, word)
              | Some cur \<Rightarrow>
                  if l = cur then (groups, currentLang, buffer @ word)
                  else (groups @ [\<lparr>lang = currentLang, gtext = buffer\<rparr>], Some l, word))"

definition native_groups :: "jsstring \<Rightarrow> string group list" where
  "native_groups t = finish (foldl native_step ([], None, []) (split_ws (cleanedText t)))"

text \<open>
  The native client names the locale of a group when it hands it to the speech engine:
  \<open>group.lang === 'ru' ? 'ru-RU' : 'en-US'\<close>.
\<close>

definition native_locale :: "string \<Rightarrow> web_lang" where
  "native_locale l = (if l = ''ru'' then RuRU else EnUS)"

section \<open>Sequential synthesis in the web client\<close>

text \<open>
  \<open>window.speechSynthesis\<close> is not part of the repository. It is modelled by what the
  service relies on: \<open>speak\<close> appends an utterance to the queue of the engine, \<open>cancel\<close>
  empties that queue, and the engine reports the end of an utterance by running the
  handler stored in its \<open>onend\<close>. The voice, rate, pitch and volume that \<open>speakGroup\<close> sets
  on an utterance do not influence the control flow and are left out.

  The handler that \<open>speakGroup\<close> installs is the closure \<open>() => speakGroup(i + 1)\<close>; it is
  represented by the variables it captures: \<open>groups\<close>, \<open>onEnd\<close> and the next index. The
  caller's \<open>onEnd\<close> is an opaque token of type \<open>'cb\<close>, absent when no callback was passed.
\<close>

datatype 'cb onend = NextGroup "web_lang group list" "'cb option" nat

record 'cb utterance =
  utext :: jsstring
  ulang :: "web_lang option"
  onend :: "'cb onend"

text \<open>What an observer of the engine and of the caller sees, in order.\<close>

datatype 'cb effect = Cancel | Speak jsstring "web_lang option" | Callback 'cb

text \<open>
  \<open>queue\<close> holds the utterances handed to the engine that have neither ended nor been
  cancelled. \<open>cancelled\<close> holds the utterances a \<open>cancel\<close> removed: the service keeps no
  record of them and does not detach their \<open>onend\<close> handlers, so an engine that reports
  the end of an utterance it was told to cancel runs the handler.
\<close>

record 'cb synthesis =
  queue :: "'cb utterance list"
  cancelled :: "'cb utterance list"
  trace :: "'cb effect list"

definition synth_cancel :: "'cb synthesis \<Rightarrow> 'cb synthesis" where
  "synth_cancel s =
     s\<lparr>queue := [], cancelled := cancelled s @ queue s, trace := trace s @ [Cancel]\<rparr>"

definition synth_speak :: "'cb utterance \<Rightarrow> 'cb synthesis \<Rightarrow> 'cb synthesis" where
  "synth_speak u s = s\<lparr>queue := queue s @ [u], trace := trace s @ [Speak (utext u) (ulang u)]\<rparr>"

definition call_back :: "'cb option \<Rightarrow> 'cb synthesis \<Rightarrow> 'cb synthesis" where
  "call_back onEnd s = (case onEnd of None \<Rightarrow> s | Some cb \<Rightarrow> s\<lparr>trace := trace s @ [Callback cb]\<rparr>)"

definition speakGroup ::
  "web_lang group list \<Rightarrow> 'cb option \<Rightarrow> nat \<Rightarrow> 'cb synthesis \<Rightarrow> 'cb synthesis" where
  "speakGroup groups onEnd i s =
     (if i \<ge> length groups then call_back onEnd s
      else synth_speak \<lparr>utext = gtext (groups ! i), ulang = lang (groups ! i),
                         onend = NextGroup groups onEnd (i + 1)\<rparr> s)"

definition speak :: "jsstring \<Rightarrow> 'cb option \<Rightarrow> 'cb synthesis \<Rightarrow> 'cb synthesis" where
  "speak t onEnd s =
     (let s1 = synth_cancel s; groups = web_groups t
      in if length groups > 0 then speakGroup groups onEnd 0 s1 else call_back onEnd s1)"

definition stopSpeaking :: "'cb synthesis \<Rightarrow> 'cb synthesis" where
  "stopSpeaking s = synth_cancel s"

text \<open>The engine runs an \<open>onend\<close> handler.\<close>

fun run_onend :: "'cb onend \<Rightarrow> 'cb synthesis \<Rightarrow> 'cb synthesis" where
  "run_onend (NextGroup groups onEnd i) s = speakGroup groups onEnd i s"

text \<open>
  The events of a session. \<open>UtteranceEnd\<close>: the utterance at the head of the queue has
  been spoken to its end. \<open>CancelledEnd\<close>: the engine reports the end of the oldest
  cancelled utterance although \<open>cancel\<close> removed it from the queue.
\<close>

datatype 'cb event = CallSpeak jsstring "'cb option" | CallStop | UtteranceEnd | CancelledEnd

fun fire :: "'cb synthesis \<Rightarrow> 'cb event \<Rightarrow> 'cb synthesis" where
  "fire s (CallSpeak t onEnd) = speak t onEnd s"
| "fire s CallStop = stopSpeaking s"
| "fire s UtteranceEnd =
     (case queue s of [] \<Rightarrow> s | u # q \<Rightarrow> run_onend (onend u) (s\<lparr>queue := q\<rparr>))"
| "fire s CancelledEnd =
     (case cancelled s of [] \<Rightarrow> s | u # q \<Rightarrow> run_onend (onend u) (s\<lparr>cancelled := q\<rparr>))"

definition run :: "'cb event list \<Rightarrow> 'cb synthesis \<Rightarrow> 'cb synthesis" where
  "run evs s = foldl fire s evs"

definition idle :: "'cb synthesis" where
  "idle = \<lparr>queue = [], cancelled = [], trace = []\<rparr>"

definition speak_of :: "web_lang group \<Rightarrow> 'cb effect" where
  "speak_of g = Speak (gtext g) (lang g)"


section \<open>Extracting a record from a completion\<close>

subsection \<open>Values\<close>

text \<open>
  The values \<open>JSON.parse\<close> can return. An object is a finite map from keys to values, given
  as an association list read with \<open>map_of\<close>. Numbers are IEEE doubles in JavaScript; the
  extraction only asks whether a number is truthy or greater than zero, so the number
  type is a parameter \<open>'n\<close> and the two tests belong to the engine below.
\<close>

datatype 'n json =
    JNull
  | JBool bool
  | JNum 'n
  | JStr jsstring
  | JArr "'n json list"
  | JObj "(jsstring \<times> 'n json) list"

text \<open>
  What the code takes from the JavaScript engine: \<open>JSON.parse\<close> (\<open>None\<close> when it throws a
  SyntaxError), the truthiness of a number (false for zero and NaN), and the comparison
  \<open>v > 0\<close> for a parsed value \<open>v\<close>.
\<close>

record 'n engine =
  JSON_parse :: "jsstring \<Rightarrow> 'n json option"
  num_truthy :: "'n \<Rightarrow> bool"
  gt_zero :: "'n json \<Rightarrow> bool"

fun truthy :: "'n engine \<Rightarrow> 'n json \<Rightarrow> bool" where
  "truthy E JNull = False"
| "truthy E (JBool b) = b"
| "truthy E (JNum n) = num_truthy E n"
| "truthy E (JStr s) = (s \<noteq> [])"
| "truthy E (JArr xs) = True"
| "truthy E (JObj kvs) = True"

text \<open>
  Reading a property of a value that is not null. \<open>None\<close> is \<open>undefined\<close>. A parsed object
  has the properties of its text; a string, a number, a boolean or an array has none of
  the names the extraction reads.
\<close>

fun get_prop :: "'n json \<Rightarrow> string \<Rightarrow> 'n json option" where
  "get_prop (JObj kvs) k = map_of kvs (js k)"
| "get_prop v k = None"

text \<open>\<open>v || d\<close> and \<open>v || undefined\<close>.\<close>

definition or_else :: "'n engine \<Rightarrow> 'n json option \<Rightarrow> 'n json \<Rightarrow> 'n json" where
  "or_else E v d = (case v of None \<Rightarrow> d | Some x \<Rightarrow> if truthy E x then x else d)"

definition or_undefined :: "'n engine \<Rightarrow> 'n json option \<Rightarrow> 'n json option" where
  "or_undefined E v = (case v of None \<Rightarrow> None | Some x \<Rightarrow> if truthy E x then Some x else None)"

text \<open>
  \<open>v.length > 0\<close> for a truthy value \<open>v\<close>: a string has its number of code units and an
  array its number of elements; an object has a length only as a property of that name;
  a number or a boolean has none, and \<open>undefined > 0\<close> is false.
\<close>

fun length_gt_zero :: "'n engine \<Rightarrow> 'n json \<Rightarrow> bool" where
  "length_gt_zero E (JStr s) = (length s > 0)"
| "length_gt_zero E (JArr xs) = (length xs > 0)"
| "length_gt_zero E (JObj kvs) =
     (case map_of kvs (js ''length'') of None \<Rightarrow> False | Some l \<Rightarrow> gt_zero E l)"
| "length_gt_zero E v = False"

subsection \<open>The two patterns\<close>

abbreviation LBRACE :: jschar where "LBRACE \<equiv> 0x7B"
abbreviation RBRACE :: jschar where "RBRACE \<equiv> 0x7D"
abbreviation BACKTICK :: jschar where "BACKTICK \<equiv> 0x60"

text \<open>
  \<open>responseText.match(/\{[\s\S]*\}/)\<close>: the match starts at the first opening brace and,
  the star being greedy, ends at the last closing brace after it; there is no match when
  no closing brace follows the first opening brace.
\<close>

definition strategy1 :: "jsstring \<Rightarrow> jsstring option" where
  "strategy1 t =
     (case dropWhile (\<lambda>c. c \<noteq> LBRACE) t of
        [] \<Rightarrow> None
      | b # r \<Rightarrow> if RBRACE \<in> set r
                 then Some (b # rev (dropWhile (\<lambda>c. c \<noteq> RBRACE) (rev r)))
                 else None)"

text \<open>
  \<open>responseText.match(/```json\s*(\{[\s\S]*\})\s*```/)\<close>, of which the code keeps the
  capture. \<open>fence_follows\<close>: optional whitespace and then three backticks. \<open>last_close\<close>:
  the longest prefix that ends in a closing brace followed by the closing fence.
  \<open>strategy2_at\<close>: a match that starts at the head of the string. \<open>strategy2\<close>: the
  leftmost match.
\<close>

definition fence_follows :: "jsstring \<Rightarrow> bool" where
  "fence_follows r = (take 3 (dropWhile is_space r) = [BACKTICK, BACKTICK, BACKTICK])"

fun last_close :: "jsstring \<Rightarrow> jsstring option" where
  "last_close [] = None"
| "last_close (c # cs) =
     (case last_close cs of
        Some body \<Rightarrow> Some (c # body)
      | None \<Rightarrow> if c = RBRACE \<and> fence_follows cs then Some [c] else None)"

definition strategy2_at :: "jsstring \<Rightarrow> jsstring option" where
  "strategy2_at t =
     (if take 7 t = [BACKTICK, BACKTICK, BACKTICK] @ js ''json''
      then (case dropWhile is_space (drop 7 t) of
              [] \<Rightarrow> None
            | b # r \<Rightarrow> if b = LBRACE then map_option ((#) b) (last_close r) else None)
      else None)"

fun strategy2 :: "jsstring \<Rightarrow> jsstring option" where
  "strategy2 [] = None"
| "strategy2 (c # cs) =
     (case strategy2_at (c # cs) of Some m \<Rightarrow> Some m | None \<Rightarrow> strategy2 cs)"

text \<open>
  The text handed to \<open>JSON.parse\<close>: the second pattern is tried if the first one has no
  match, and \<open>jsonMatch[0]\<close> is then overwritten with its capture.
\<close>

definition find_json :: "jsstring \<Rightarrow> jsstring option" where
  "find_json t = (case strategy1 t of Some m \<Rightarrow> Some m | None \<Rightarrow> strategy2 t)"

subsection \<open>\<open>generateVictorAIResponse\<close> and \<open>fetchWordData\<close>\<close>

datatype error = NotInitialized | CompletionFailed | NoJsonFound | SyntaxError | TypeError

text \<open>
  The fields are typed by what the code can put there at run time: \<open>parsed.response || ...\<close>
  is whatever truthy value the payload holds, of any shape. \<open>None\<close> is \<open>undefined\<close>.
\<close>

record 'n VictorAIResponse =
  response :: "'n json"
  corrections :: "'n json option"
  vocabularyTip :: "'n json option"
  pronunciationTip :: "'n json option"
  followUpQuestion :: "'n json"

text \<open>The object literal returned inside \<open>try\<close>; reading a property of null throws.\<close>

definition victor_fields :: "'n engine \<Rightarrow> 'n json \<Rightarrow> error + 'n VictorAIResponse" where
  "victor_fields E parsedResponse =
     (if parsedResponse = JNull then Inl TypeError
      else Inr \<lparr>
        response = or_else E (get_prop parsedResponse ''response'')
                     (JStr (js ''I'm here to help you learn Russian!'')),
        corrections =
          (case get_prop parsedResponse ''corrections'' of
             None \<Rightarrow> None
           | Some c \<Rightarrow> if truthy E c \<and> length_gt_zero E c then Some c else None),
        vocabularyTip = or_undefined E (get_prop parsedResponse ''vocabularyTip''),
        pronunciationTip = or_undefined E (get_prop parsedResponse ''pronunciationTip''),
        followUpQuestion = or_else E (get_prop parsedResponse ''followUpQuestion'')
                             (JStr (js ''What Russian phrase would you like to learn?''))\<rparr>)"

text \<open>The object literal returned by \<open>catch\<close>.\<close>

abbreviation victor_fallback :: "'n VictorAIResponse" where
  "victor_fallback \<equiv> \<lparr>
     response = JStr (js (''I'm sorry, I had trouble processing that. Could you try again? '' @
                          ''I'm here to help you learn Russian!'')),
     corrections = None,
     vocabularyTip = None,
     pronunciationTip = None,
     followUpQuestion =
       JStr (js ''What Russian words or phrases would you like to practice today?'')\<rparr>"

text \<open>The body of \<open>try\<close> from the completion text on.\<close>

definition victor_try :: "'n engine \<Rightarrow> jsstring \<Rightarrow> error + 'n VictorAIResponse" where
  "victor_try E responseText =
     (case find_json responseText of
        None \<Rightarrow> Inl NoJsonFound
      | Some m \<Rightarrow> (case JSON_parse E m of
                     None \<Rightarrow> Inl SyntaxError
                   | Some parsedResponse \<Rightarrow> victor_fields E parsedResponse))"

text \<open>
  The whole function. \<open>initialized\<close>: \<open>this.model\<close> is set; the check precedes \<open>try\<close>, so
  its error reaches the caller. \<open>completion\<close>: what the request to the model gave, an
  exception or the text of the completion.
\<close>

definition generateVictorAIResponse ::
  "'n engine \<Rightarrow> bool \<Rightarrow> error + jsstring \<Rightarrow> error + 'n VictorAIResponse" where
  "generateVictorAIResponse E initialized completion =
     (if \<not> initialized then Inl NotInitialized
      else case completion of
             Inl e \<Rightarrow> Inr victor_fallback
           | Inr responseText \<Rightarrow>
               (case victor_try E responseText of
                  Inl e \<Rightarrow> Inr victor_fallback
                | Inr r \<Rightarrow> Inr r))"

record 'n WordData =
  phonetic :: "'n json"
  examples :: "'n json"
  translation :: "'n json"

definition word_fields :: "'n engine \<Rightarrow> 'n json \<Rightarrow> error + 'n WordData" where
  "word_fields E parsed =
     (if parsed = JNull then Inl TypeError
      else Inr \<lparr>
        phonetic = or_else E (get_prop parsed ''phonetic'') (JStr []),
        examples = or_else E (get_prop parsed ''examples'') (JArr []),
        translation = or_else E (get_prop parsed ''translation'') (JStr [])\<rparr>)"

abbreviation word_fallback :: "'n WordData" where
  "word_fallback \<equiv> \<lparr>phonetic = JStr [], examples = JArr [], translation = JStr []\<rparr>"

definition word_try :: "'n engine \<Rightarrow> jsstring \<Rightarrow> error + 'n WordData" where
  "word_try E responseText =
     (case find_json responseText of
        None \<Rightarrow> Inl NoJsonFound
      | Some m \<Rightarrow> (case JSON_parse E m of
                     None \<Rightarrow> Inl SyntaxError
                   | Some parsed \<Rightarrow> word_fields E parsed))"

definition fetchWordData ::
  "'n engine \<Rightarrow> bool \<Rightarrow> error + jsstring \<Rightarrow> error + 'n WordData" where
  "fetchWordData E initialized completion =
     (if \<not> initialized then Inl NotInitialized
      else case completion of
             Inl e \<Rightarrow> Inr word_fallback
           | Inr responseText \<Rightarrow>
               (case word_try E responseText of
                  Inl e \<Rightarrow> Inr word_fallback
                | Inr r \<Rightarrow> Inr r))"

text \<open>
  An engine for the concrete examples only: \<open>JSON.parse\<close> is given by a table of texts
  and their values and rejects every other text, and the numbers are integers. The
  comparison with zero is decided for numbers and booleans; no example reaches it on
  another value.
\<close>

definition table_engine :: "(jsstring \<times> int json) list \<Rightarrow> int engine" where
  "table_engine tab =
     \<lparr>JSON_parse = map_of tab,
      num_truthy = (\<lambda>n. n \<noteq> 0),
      gt_zero = (\<lambda>v. case v of JNum n \<Rightarrow> 0 < n | JBool b \<Rightarrow> b | _ \<Rightarrow> False)\<rparr>"


section \<open>Notions used in the statements\<close>

text \<open>The text a loop state stands for: the groups pushed so far and the open buffer.\<close>

definition flat :: "'l seg_state \<Rightarrow> jsstring" where
  "flat st = (case st of (groups, currentLang, buffer) \<Rightarrow> concat (map gtext groups) @ buffer)"

text \<open>The language tag the loop of the web client gives a word.\<close>

definition classify :: "jsstring \<Rightarrow> web_lang" where
  "classify w = (if isRussian w then RuRU else EnUS)"

text \<open>A group of the native client with its tag renamed to the locale of the web client.\<close>

definition to_web_group :: "string group \<Rightarrow> web_lang group" where
  "to_web_group g = \<lparr>lang = map_option native_locale (lang g), gtext = gtext g\<rparr>"

definition native_tag :: "string option \<Rightarrow> bool" where
  "native_tag c \<longleftrightarrow> c = Some ''ru'' \<or> c = Some ''en''"

definition to_web_state :: "string seg_state \<Rightarrow> web_lang seg_state" where
  "to_web_state st =
     (case st of (groups, currentLang, buffer) \<Rightarrow>
        (map to_web_group groups, map_option native_locale currentLang, buffer))"

definition tags_ok :: "string seg_state \<Rightarrow> bool" where
  "tags_ok st =
     (case st of (groups, currentLang, buffer) \<Rightarrow>
        native_tag currentLang \<and> list_all (\<lambda>g. native_tag (lang g)) groups)"

text \<open>The effect of \<open>if (onEnd) onEnd()\<close>.\<close>

definition cb_effects :: "'cb option \<Rightarrow> 'cb effect list" where
  "cb_effects onEnd = (case onEnd of None \<Rightarrow> [] | Some cb \<Rightarrow> [Callback cb])"

text \<open>The utterance \<open>speakGroup(i)\<close> builds.\<close>

definition utt :: "web_lang group list \<Rightarrow> 'cb option \<Rightarrow> nat \<Rightarrow> 'cb utterance" where
  "utt groups onEnd i =
     \<lparr>utext = gtext (groups ! i), ulang = lang (groups ! i), onend = NextGroup groups onEnd (i + 1)\<rparr>"

text \<open>
  The state while group \<open>k\<close> of a job started in state \<open>s0\<close> is being spoken, and the state
  once the job has run to its end.
\<close>

definition playing ::
  "'cb synthesis \<Rightarrow> web_lang group list \<Rightarrow> 'cb option \<Rightarrow> nat \<Rightarrow> 'cb synthesis" where
  "playing s0 groups onEnd k =
     \<lparr>queue = [utt groups onEnd k], cancelled = cancelled s0 @ queue s0,
      trace = trace s0 @ Cancel # map speak_of (take (Suc k) groups)\<rparr>"

definition finished ::
  "'cb synthesis \<Rightarrow> web_lang group list \<Rightarrow> 'cb option \<Rightarrow> 'cb synthesis" where
  "finished s0 groups onEnd =
     \<lparr>queue = [], cancelled = cancelled s0 @ queue s0,
      trace = trace s0 @ Cancel # map speak_of groups @ cb_effects onEnd\<rparr>"

text \<open>Neither pattern yields a text that \<open>JSON.parse\<close> accepts.\<close>

definition strategies_fail :: "'n engine \<Rightarrow> jsstring \<Rightarrow> bool" where
  "strategies_fail E t = (case find_json t of None \<Rightarrow> True | Some m \<Rightarrow> JSON_parse E m = None)"

subsection \<open>Concrete inputs\<close>

text \<open>The Russian greeting of the tutor followed by a comma, U+041F U+0440 U+0438 U+0432 U+0435 U+0442 U+002C.\<close>

definition privet :: jsstring where
  "privet = [0x41F, 0x440, 0x438, 0x432, 0x435, 0x442, 0x2C]"

text \<open>A text of three runs: the letter ya, a space, the letter a, a space, the letter ya.\<close>

definition three_runs :: jsstring where
  "three_runs = [0x44F, 0x20, 0x61, 0x20, 0x44F]"

text \<open>
  A completion with a brace before a well-formed fenced block, the interior of the block,
  and the value of that interior.
\<close>

definition fenced_text :: jsstring where
  "fenced_text = js ''{oops} ```json {\"response\":\"Hi\"} ```''"

definition fenced_json :: jsstring where
  "fenced_json = js ''{\"response\":\"Hi\"}''"

definition fenced_value :: "int json" where
  "fenced_value = JObj [(js ''response'', JStr (js ''Hi''))]"

text \<open>The part of \<open>fenced_text\<close> from its first opening brace to its last closing brace.\<close>

definition fenced_greedy :: jsstring where
  "fenced_greedy = js ''{oops} ```json {\"response\":\"Hi\"}''"

text \<open>A payload whose corrections are a string, and its value.\<close>

definition corrections_json :: jsstring where
  "corrections_json = js ''{\"response\":\"Hi\",\"corrections\":\"oops\"}''"

definition corrections_value :: "int json" where
  "corrections_value =
     JObj [(js ''response'', JStr (js ''Hi'')), (js ''corrections'', JStr (js ''oops''))]"

text \<open>A payload whose tips are a string and a boolean, and its value.\<close>

definition tips_json :: jsstring where
  "tips_json = js ''{\"response\":\"Hi\",\"vocabularyTip\":\"dom\",\"pronunciationTip\":true}''"

definition tips_value :: "int json" where
  "tips_value =
     JObj [(js ''response'', JStr (js ''Hi'')), (js ''vocabularyTip'', JStr (js ''dom'')),
           (js ''pronunciationTip'', JBool True)]"


section \<open>Properties of the segmentation\<close>

subsection \<open>Tokens\<close>

lemma concat_split_ws: "concat (split_ws s) = s"
proof (induction s rule: split_ws.induct)
  case (1 s)
  show ?case
  proof (cases "dropWhile not_space s = []")
    case True
    then have "takeWhile not_space s = s"
      by (metis takeWhile_dropWhile_id append_Nil2)
    with True show ?thesis by (simp add: split_ws.simps [of s])
  next
    case False
    have "concat (split_ws (dropWhile is_space (dropWhile not_space s)))
            = dropWhile is_space (dropWhile not_space s)"
      using "1.IH" [OF refl refl False] .
    with False show ?thesis
      by (simp add: split_ws.simps [of s] Let_def)
  qed
qed

lemma split_ws_head: "\<exists>ps. split_ws s = takeWhile not_space s # ps"
  by (simp add: split_ws.simps [of s] Let_def)

lemma takeWhile_not_ws_token: "\<not> is_ws_token (takeWhile not_space s)"
proof
  assume a: "is_ws_token (takeWhile not_space s)"
  then obtain c cs where c: "takeWhile not_space s = c # cs"
    by (cases "takeWhile not_space s") (simp_all add: is_ws_token_def)
  then have "c \<in> set (takeWhile not_space s)" by simp
  then have "not_space c" by (rule set_takeWhileD [THEN conjunct2])
  moreover from a c have "is_space c" by (simp add: is_ws_token_def)
  ultimately show False by (simp add: not_space_def)
qed

lemma split_ws_single: "list_all not_space s \<Longrightarrow> split_ws s = [s]"
proof -
  assume "list_all not_space s"
  then have "dropWhile not_space s = []" "takeWhile not_space s = s"
    by (simp_all add: list_all_iff)
  then show ?thesis by (simp add: split_ws.simps [of s])
qed

lemma space_is_space: "is_space SPACE"
  by (simp add: is_space_def)

lemma token_not_ws: "w \<noteq> [] \<Longrightarrow> list_all not_space w \<Longrightarrow> \<not> is_ws_token w"
  by (cases w) (simp_all add: is_ws_token_def not_space_def)

lemma split_two:
  assumes a: "list_all not_space a" and b: "b \<noteq> []" "list_all not_space b"
  shows "split_ws (a @ SPACE # b) = [a, [SPACE], b]"
proof -
  have n: "\<not> not_space SPACE" by (simp add: not_space_def space_is_space)
  have t: "takeWhile not_space (a @ SPACE # b) = a"
    using a n by (simp add: list_all_iff takeWhile_append2)
  have d: "dropWhile not_space (a @ SPACE # b) = SPACE # b"
    using a n by (simp add: list_all_iff dropWhile_append2)
  obtain c cs where c: "b = c # cs" "\<not> is_space c"
    using b by (cases b) (simp_all add: not_space_def)
  have t2: "takeWhile is_space b = []" and d2: "dropWhile is_space b = b"
    using c by simp_all
  show ?thesis
    by (subst split_ws.simps) (simp add: t d t2 d2 space_is_space split_ws_single [OF b(2)])
qed

subsection \<open>Cleaning\<close>

lemma strip_parens_id: "LPAREN \<notin> set s \<Longrightarrow> strip_parens s = s"
  by (induction s) simp_all

lemma collapse_ws_id: "list_all not_space s \<Longrightarrow> collapse_ws s = s"
  by (induction s) (simp_all add: not_space_def)

lemma collapse_ws_append: "list_all not_space a \<Longrightarrow> collapse_ws (a @ r) = a @ collapse_ws r"
  by (induction a) (simp_all add: not_space_def)

lemma dropWhile_space_token: "s \<noteq> [] \<Longrightarrow> list_all not_space s \<Longrightarrow> dropWhile is_space s = s"
  by (cases s) (simp_all add: not_space_def)

lemma trim_id: "list_all not_space s \<Longrightarrow> trim s = s"
proof -
  assume a: "list_all not_space s"
  then have 1: "dropWhile is_space s = s"
    by (cases s) (simp_all add: not_space_def)
  from a have "list_all not_space (rev s)" by (simp add: list_all_iff)
  then have 2: "dropWhile is_space (rev s) = rev s"
    by (cases "rev s") (simp_all add: not_space_def)
  show ?thesis by (simp add: trim_def 1 2)
qed

lemma cleaned_token:
  "list_all not_space w \<Longrightarrow> LPAREN \<notin> set w \<Longrightarrow> cleanedText w = w"
  by (simp add: cleanedText_def strip_parens_id collapse_ws_id trim_id)

lemma cleaned_two:
  assumes a: "a \<noteq> []" "list_all not_space a" "LPAREN \<notin> set a"
    and b: "b \<noteq> []" "list_all not_space b" "LPAREN \<notin> set b"
  shows "cleanedText (a @ SPACE # b) = a @ SPACE # b"
proof -
  have 1: "strip_parens (a @ SPACE # b) = a @ SPACE # b"
    using a(3) b(3) by (simp add: strip_parens_id)
  have "collapse_ws (SPACE # b) = SPACE # b"
    using b(1,2) by (simp add: space_is_space dropWhile_space_token collapse_ws_id)
  then have 2: "collapse_ws (a @ SPACE # b) = a @ SPACE # b"
    using a(2) by (simp add: collapse_ws_append)
  have 3: "dropWhile is_space (a @ SPACE # b) = a @ SPACE # b"
    using a(1,2) by (cases a) (simp_all add: not_space_def)
  have "list_all not_space (rev b)" "rev b \<noteq> []"
    using b(1,2) by (simp_all add: list_all_iff)
  then have 4: "dropWhile is_space (rev b @ SPACE # rev a) = rev b @ SPACE # rev a"
    by (cases "rev b") (simp_all add: not_space_def)
  show ?thesis
    by (simp add: cleanedText_def 1 2 trim_def 3 4)
qed

lemma collapse_all_space:
  "list_all is_space t \<Longrightarrow> collapse_ws t = (if t = [] then [] else [SPACE])"
proof (cases t)
  case Nil
  then show ?thesis by simp
next
  case (Cons c cs)
  assume "list_all is_space t"
  with Cons have c: "is_space c" and cs: "list_all is_space cs" by simp_all
  from cs have d: "dropWhile is_space cs = []" by (simp add: list_all_iff)
  have "collapse_ws (dropWhile is_space cs) = []" unfolding d by simp
  with c Cons show ?thesis by simp
qed

lemma cleaned_all_space: "list_all is_space t \<Longrightarrow> cleanedText t = []"
proof -
  assume a: "list_all is_space t"
  have "\<not> is_space LPAREN" by (simp add: is_space_def)
  with a have "LPAREN \<notin> set t" by (auto simp: list_all_iff)
  then have "strip_parens t = t" by (rule strip_parens_id)
  with a show ?thesis
    by (simp add: cleanedText_def collapse_all_space trim_def space_is_space)
qed

subsection \<open>The loop of the web client\<close>

lemma flat_finish: "concat (map gtext (finish st)) = flat st"
  by (cases st) (simp add: finish_def flat_def)

lemma web_step_open:
  "web_step (g, Some l, b) w = (g', c', b') \<Longrightarrow>
     c' \<noteq> None \<and> flat (g', c', b') = flat (g, Some l, b) @ w"
  by (auto simp: flat_def Let_def split: if_splits)

lemma web_fold_open:
  "flat (foldl web_step (g, Some l, b) ws) = flat (g, Some l, b) @ concat ws"
proof (induction ws arbitrary: g l b)
  case Nil
  show ?case by simp
next
  case (Cons w ws)
  obtain g' c' b' where s: "web_step (g, Some l, b) w = (g', c', b')"
    by (cases "web_step (g, Some l, b) w") auto
  from web_step_open [OF s] obtain l' where c': "c' = Some l'"
    and f: "flat (g', c', b') = flat (g, Some l, b) @ w" by auto
  show ?case using Cons.IH [of g' l' b'] s c' f by simp
qed

lemma web_first_word:
  "\<not> is_ws_token w \<Longrightarrow> web_step ([], None, []) w = ([], Some (classify w), w)"
  by (simp add: Let_def classify_def)

lemma web_fold_flat:
  assumes "\<not> is_ws_token w"
  shows "flat (foldl web_step ([], None, []) (w # ws)) = concat (w # ws)"
proof -
  have "foldl web_step ([], None, []) (w # ws) = foldl web_step ([], Some (classify w), w) ws"
    by (simp only: foldl_Cons web_first_word [OF assms])
  then show ?thesis by (simp only: web_fold_open) (simp add: flat_def)
qed

lemma web_round_trip: "concat (map gtext (web_groups t)) = cleanedText t"
proof -
  obtain ps where ps: "split_ws (cleanedText t) = takeWhile not_space (cleanedText t) # ps"
    using split_ws_head by blast
  have "flat (foldl web_step ([], None, []) (split_ws (cleanedText t)))
          = concat (split_ws (cleanedText t))"
    unfolding ps by (rule web_fold_flat) (rule takeWhile_not_ws_token)
  then show ?thesis
    by (simp add: web_groups_def flat_finish concat_split_ws)
qed

lemma web_groups_empty: "cleanedText t = [] \<Longrightarrow> web_groups t = []"
  by (simp add: web_groups_def split_ws.simps [of "[]"] is_ws_token_def finish_def Let_def)

lemma web_groups_token:
  assumes "w \<noteq> []" and "list_all not_space w" and "LPAREN \<notin> set w"
  shows "web_groups w = [\<lparr>lang = Some (classify w), gtext = w\<rparr>]"
proof -
  note n = token_not_ws [OF assms(1,2)]
  show ?thesis
    unfolding web_groups_def cleaned_token [OF assms(2,3)] split_ws_single [OF assms(2)]
    using assms(1) by (simp add: web_first_word [OF n] finish_def del: web_step.simps)
qed

lemma web_groups_two:
  assumes a: "a \<noteq> []" "list_all not_space a" "LPAREN \<notin> set a"
    and b: "b \<noteq> []" "list_all not_space b" "LPAREN \<notin> set b"
  shows "web_groups (a @ SPACE # b) =
     (if classify a = classify b
      then [\<lparr>lang = Some (classify a), gtext = a @ SPACE # b\<rparr>]
      else [\<lparr>lang = Some (classify a), gtext = a @ [SPACE]\<rparr>,
            \<lparr>lang = Some (classify b), gtext = b\<rparr>])"
proof -
  have w: "is_ws_token [SPACE]" by (simp add: is_ws_token_def space_is_space)
  note na = token_not_ws [OF a(1,2)] and nb = token_not_ws [OF b(1,2)]
  show ?thesis
    unfolding web_groups_def cleaned_two [OF a b] split_two [OF a(2) b(1,2)]
    using w na nb a(1) b(1)
    by (simp add: finish_def classify_def Let_def)
qed

subsection \<open>The loop of the native client follows the loop of the web client\<close>

lemma native_step_sim:
  assumes "tags_ok st"
  shows "tags_ok (native_step st w) \<and>
         to_web_state (native_step st w) = web_step (to_web_state st) w"
proof -
  obtain g c b where st: "st = (g, c, b)" by (cases st) auto
  from assms st have c: "c = Some ''ru'' \<or> c = Some ''en''"
    and g: "list_all (\<lambda>g. native_tag (lang g)) g"
    by (simp_all add: tags_ok_def native_tag_def)
  from c show ?thesis
  proof
    assume "c = Some ''ru''"
    with g show ?thesis
      by (simp add: st tags_ok_def to_web_state_def native_tag_def native_locale_def Let_def
          to_web_group_def)
  next
    assume "c = Some ''en''"
    with g show ?thesis
      by (simp add: st tags_ok_def to_web_state_def native_tag_def native_locale_def Let_def
          to_web_group_def)
  qed
qed

lemma native_fold_sim:
  "tags_ok st \<Longrightarrow>
     tags_ok (foldl native_step st ws) \<and>
     to_web_state (foldl native_step st ws) = foldl web_step (to_web_state st) ws"
proof (induction ws arbitrary: st)
  case Nil
  then show ?case by simp
next
  case (Cons w ws)
  from native_step_sim [OF Cons.prems, of w]
  have ok: "tags_ok (native_step st w)"
    and eq: "to_web_state (native_step st w) = web_step (to_web_state st) w" by simp_all
  from Cons.IH [OF ok] eq show ?case by simp
qed

lemma native_first_word:
  assumes "\<not> is_ws_token w"
  shows "tags_ok (native_step ([], None, []) w) \<and>
         to_web_state (native_step ([], None, []) w) = web_step ([], None, []) w"
  using assms
  by (simp add: tags_ok_def to_web_state_def native_tag_def native_locale_def Let_def)

lemma finish_sim: "map to_web_group (finish st) = finish (to_web_state st)"
  by (cases st) (simp add: finish_def to_web_state_def to_web_group_def)

lemma finish_tags: "tags_ok st \<Longrightarrow> list_all (\<lambda>g. native_tag (lang g)) (finish st)"
  by (cases st) (simp add: finish_def tags_ok_def)

lemma native_web_groups:
  "map to_web_group (native_groups t) = web_groups t \<and>
   list_all (\<lambda>g. native_tag (lang g)) (native_groups t)"
proof -
  obtain ps where ps: "split_ws (cleanedText t) = takeWhile not_space (cleanedText t) # ps"
    using split_ws_head by blast
  let ?w = "takeWhile not_space (cleanedText t)"
  from native_first_word [OF takeWhile_not_ws_token, of "cleanedText t"]
  have ok: "tags_ok (native_step ([], None, []) ?w)"
    and eq: "to_web_state (native_step ([], None, []) ?w) = web_step ([], None, []) ?w"
    by simp_all
  from native_fold_sim [OF ok, of ps] eq
  have "tags_ok (foldl native_step ([], None, []) (?w # ps))"
    and "to_web_state (foldl native_step ([], None, []) (?w # ps))
           = foldl web_step ([], None, []) (?w # ps)"
    by (simp_all del: native_step.simps web_step.simps)
  then show ?thesis
    by (simp add: native_groups_def web_groups_def ps finish_sim finish_tags
        del: native_step.simps web_step.simps)
qed

lemma gtext_to_web: "map gtext (map to_web_group gs) = map gtext gs"
  by (induction gs) (simp_all add: to_web_group_def)

subsection \<open>Claims about the segmentation\<close>

text \<open>
  C1. Segmentation round trip. For every input, in the web client and in the native client,
  the texts of the groups that the segmentation phase of \<open>speak\<close> produces, concatenated in
  order, are the cleaned input: the input with the parenthesised asides removed, the runs
  of whitespace collapsed to one space each, and both ends trimmed.
\<close>

theorem segmentation_round_trip:
  "concat (map gtext (web_groups t)) = cleanedText t \<and>
   concat (map gtext (native_groups t)) = cleanedText t"
proof
  show "concat (map gtext (web_groups t)) = cleanedText t"
    by (rule web_round_trip)
  have "map gtext (native_groups t) = map gtext (map to_web_group (native_groups t))"
    by (simp only: gtext_to_web)
  also have "\<dots> = map gtext (web_groups t)"
    using native_web_groups [of t] by simp
  finally show "concat (map gtext (native_groups t)) = cleanedText t"
    by (simp add: web_round_trip)
qed

text \<open>
  C10. The two segmenters agree. For every input, the groups of the native client, with
  each tag renamed as the native client itself renames it for the speech engine (\<open>ru\<close> to
  \<open>ru-RU\<close>, \<open>en\<close> to \<open>en-US\<close>), are the groups of the web client, in the same order and with
  the same texts; and the native client uses no tag other than \<open>ru\<close> and \<open>en\<close>.
\<close>

theorem segmenters_agree:
  "map to_web_group (native_groups t) = web_groups t \<and>
   list_all (\<lambda>g. lang g = Some ''ru'' \<or> lang g = Some ''en'') (native_groups t)"
  using native_web_groups [of t] by (simp add: native_tag_def)


text \<open>
  C7, as amended. A word is classified by the character class of \<open>isRussian\<close>, to which
  the two letters io belong: a cleaned input of one word is one group with the tag
  \<open>ru-RU\<close> if the word holds a character of the class and \<open>en-US\<close> if it holds none. The
  space between two words of different tags is appended to the group that is open, the
  earlier one, and the later group starts at its word: the greeting followed by
  \<open>how are you?\<close> gives the two groups \<open>(ru-RU, greeting and space)\<close> and
  \<open>(en-US, how are you?)\<close>.
\<close>

theorem classification_and_boundary:
  "(w \<noteq> [] \<and> list_all not_space w \<and> LPAREN \<notin> set w \<longrightarrow>
      web_groups w = [\<lparr>lang = Some (if isRussian w then RuRU else EnUS), gtext = w\<rparr>]) \<and>
   (a \<noteq> [] \<and> list_all not_space a \<and> LPAREN \<notin> set a \<and>
    b \<noteq> [] \<and> list_all not_space b \<and> LPAREN \<notin> set b \<and> classify a \<noteq> classify b \<longrightarrow>
      web_groups (a @ SPACE # b) =
        [\<lparr>lang = Some (classify a), gtext = a @ [SPACE]\<rparr>,
         \<lparr>lang = Some (classify b), gtext = b\<rparr>]) \<and>
   isRussian [0x451] \<and> isRussian [0x401] \<and>
   web_groups (privet @ js '' how are you?'') =
     [\<lparr>lang = Some RuRU, gtext = privet @ js '' ''\<rparr>,
      \<lparr>lang = Some EnUS, gtext = js ''how are you?''\<rparr>]"
proof (intro conjI impI)
  assume "w \<noteq> [] \<and> list_all not_space w \<and> LPAREN \<notin> set w"
  then show "web_groups w = [\<lparr>lang = Some (if isRussian w then RuRU else EnUS), gtext = w\<rparr>]"
    using web_groups_token [of w] by (simp add: classify_def)
next
  assume "a \<noteq> [] \<and> list_all not_space a \<and> LPAREN \<notin> set a \<and>
    b \<noteq> [] \<and> list_all not_space b \<and> LPAREN \<notin> set b \<and> classify a \<noteq> classify b"
  then show "web_groups (a @ SPACE # b) =
        [\<lparr>lang = Some (classify a), gtext = a @ [SPACE]\<rparr>,
         \<lparr>lang = Some (classify b), gtext = b\<rparr>]"
    using web_groups_two [of a b] by simp
next
  show "isRussian [0x451]" by (simp add: isRussian_def russian_letter_def)
  show "isRussian [0x401]" by (simp add: isRussian_def russian_letter_def)
  show "web_groups (privet @ js '' how are you?'') =
     [\<lparr>lang = Some RuRU, gtext = privet @ js '' ''\<rparr>,
      \<lparr>lang = Some EnUS, gtext = js ''how are you?''\<rparr>]"
    by code_simp
qed

theorem classification_and_boundary_witness:
  "privet \<noteq> [] \<and> list_all not_space privet \<and> LPAREN \<notin> set privet \<and>
   js ''how'' \<noteq> [] \<and> list_all not_space (js ''how'') \<and> LPAREN \<notin> set (js ''how'') \<and>
   classify privet \<noteq> classify (js ''how'') \<and>
   web_groups privet = [\<lparr>lang = Some RuRU, gtext = privet\<rparr>] \<and>
   web_groups (privet @ SPACE # js ''how'') =
     [\<lparr>lang = Some RuRU, gtext = privet @ [SPACE]\<rparr>,
      \<lparr>lang = Some EnUS, gtext = js ''how''\<rparr>]"
proof -
  have h1: "privet \<noteq> [] \<and> list_all not_space privet \<and> LPAREN \<notin> set privet"
    by code_simp
  have h2: "js ''how'' \<noteq> [] \<and> list_all not_space (js ''how'') \<and> LPAREN \<notin> set (js ''how'')"
    by code_simp
  have r: "isRussian privet" and e: "\<not> isRussian (js ''how'')"
    by code_simp+
  then have c: "classify privet = RuRU" "classify (js ''how'') = EnUS"
    by (simp_all add: classify_def)
  from classification_and_boundary [of privet privet "js ''how''"] h1 h2 r c
  show ?thesis by simp
qed

theorem privet_boundary_counterexample:
  "web_groups (privet @ js '' how are you?'') \<noteq>
     [\<lparr>lang = Some RuRU, gtext = privet\<rparr>,
      \<lparr>lang = Some EnUS, gtext = js '' how are you?''\<rparr>]"
  by code_simp


section \<open>Properties of the sequential synthesis\<close>

lemma speak_start:
  assumes "0 < length (web_groups t)"
  shows "speak t onEnd s0 = playing s0 (web_groups t) onEnd 0"
proof -
  from assms obtain g gs where g: "web_groups t = g # gs"
    by (cases "web_groups t") auto
  show ?thesis
    by (simp add: speak_def g speakGroup_def synth_cancel_def synth_speak_def playing_def
        utt_def speak_of_def)
qed

lemma speak_empty:
  assumes "web_groups t = []"
  shows "speak t onEnd s0 = finished s0 [] onEnd"
  using assms
  by (cases onEnd)
     (simp_all add: speak_def call_back_def synth_cancel_def finished_def cb_effects_def)

lemma end_next:
  assumes "Suc k < length groups"
  shows "fire (playing s0 groups onEnd k) UtteranceEnd = playing s0 groups onEnd (Suc k)"
proof -
  have "take (Suc (Suc k)) groups = take (Suc k) groups @ [groups ! Suc k]"
    using assms by (rule take_Suc_conv_app_nth)
  then show ?thesis
    using assms
    by (simp add: playing_def utt_def speakGroup_def synth_speak_def speak_of_def)
qed

lemma end_last:
  assumes "Suc k = length groups"
  shows "fire (playing s0 groups onEnd k) UtteranceEnd = finished s0 groups onEnd"
  using assms
  by (cases onEnd)
     (simp_all add: playing_def utt_def speakGroup_def call_back_def finished_def cb_effects_def)

lemma end_idle: "fire (finished s0 groups onEnd) UtteranceEnd = finished s0 groups onEnd"
  by (simp add: finished_def)

lemma run_snoc: "run (evs @ [e]) s = fire (run evs s) e"
  by (simp add: run_def)

lemma run_append: "run (xs @ ys) s = run ys (run xs s)"
  by (simp add: run_def)

lemma replicate_snoc: "x # replicate k x = replicate k x @ [x]"
  by (induction k) simp_all

lemma job_progress:
  "run (CallSpeak t onEnd # replicate k UtteranceEnd) s0 =
     (if k < length (web_groups t) then playing s0 (web_groups t) onEnd k
      else finished s0 (web_groups t) onEnd)"
proof (induction k)
  case 0
  show ?case
  proof (cases "web_groups t")
    case Nil
    then show ?thesis by (simp add: run_def speak_empty)
  next
    case (Cons g gs)
    then have "0 < length (web_groups t)" by simp
    then show ?thesis by (simp add: run_def speak_start)
  qed
next
  case (Suc k)
  have "run (CallSpeak t onEnd # replicate (Suc k) UtteranceEnd) s0
          = fire (run (CallSpeak t onEnd # replicate k UtteranceEnd) s0) UtteranceEnd"
    using run_snoc [of "CallSpeak t onEnd # replicate k UtteranceEnd" UtteranceEnd s0]
    by (simp add: replicate_snoc [symmetric])
  also have "\<dots> = (if Suc k < length (web_groups t)
                     then playing s0 (web_groups t) onEnd (Suc k)
                     else finished s0 (web_groups t) onEnd)"
  proof -
    consider "Suc k < length (web_groups t)" | "Suc k = length (web_groups t)"
      | "length (web_groups t) \<le> k" by linarith
    then show ?thesis
    proof cases
      case 1
      then show ?thesis by (simp add: Suc.IH end_next del: fire.simps)
    next
      case 2
      then show ?thesis by (simp add: Suc.IH end_last del: fire.simps)
    next
      case 3
      then show ?thesis by (simp add: Suc.IH end_idle del: fire.simps)
    qed
  qed
  finally show ?case .
qed

lemma stop_playing:
  "run (replicate m UtteranceEnd) (stopSpeaking (playing s0 groups onEnd k)) =
     \<lparr>queue = [], cancelled = cancelled s0 @ queue s0 @ [utt groups onEnd k],
      trace = trace s0 @ Cancel # map speak_of (take (Suc k) groups) @ [Cancel]\<rparr>"
proof (induction m)
  case 0
  show ?case by (simp add: run_def stopSpeaking_def synth_cancel_def playing_def)
next
  case (Suc m)
  have "run (replicate (Suc m) UtteranceEnd) (stopSpeaking (playing s0 groups onEnd k))
      = fire (run (replicate m UtteranceEnd) (stopSpeaking (playing s0 groups onEnd k)))
          UtteranceEnd"
    using run_snoc [of "replicate m UtteranceEnd" UtteranceEnd]
    by (simp add: replicate_snoc [symmetric])
  then show ?case by (simp add: Suc.IH)
qed

lemma three_runs_groups:
  "web_groups three_runs =
     [\<lparr>lang = Some RuRU, gtext = [0x44F, 0x20]\<rparr>,
      \<lparr>lang = Some EnUS, gtext = [0x61, 0x20]\<rparr>,
      \<lparr>lang = Some RuRU, gtext = [0x44F]\<rparr>]"
  by code_simp

subsection \<open>Claims about the synthesis\<close>

text \<open>
  C2. Strictly sequential synthesis. After \<open>speak\<close> and \<open>k\<close> end-of-utterance signals of the
  engine, the engine has been asked, after the initial cancel, to speak exactly the first
  \<open>k + 1\<close> groups of the input, in the order of the input: group \<open>i + 1\<close> is issued at the
  end signal of group \<open>i\<close> and not before. The queue of the engine never holds more than
  the one group being spoken, and the callback follows the last group.
\<close>

theorem strictly_sequential:
  "trace (run (CallSpeak t onEnd # replicate k UtteranceEnd) s0) =
     trace s0 @ Cancel # map speak_of (take (Suc k) (web_groups t)) @
       (if length (web_groups t) \<le> k then cb_effects onEnd else [])
   \<and> queue (run (CallSpeak t onEnd # replicate k UtteranceEnd) s0) =
       (if k < length (web_groups t) then [utt (web_groups t) onEnd k] else [])"
  by (simp add: job_progress playing_def finished_def)

text \<open>
  C3, as amended. For a job of at least two groups, \<open>stopSpeaking\<close> after the end of the
  first group and before the end of the second cancels the engine; as long as the engine
  then reports no end for the utterance that was cancelled, whatever number of end signals
  follows, the callback is not invoked and no further group is issued. The service keeps
  no record of the cancellation itself.
\<close>

theorem stop_cancels_job:
  assumes "2 \<le> length (web_groups t)"
  shows "trace (run ([CallSpeak t onEnd, UtteranceEnd, CallStop] @ replicate m UtteranceEnd) s0) =
           trace s0 @ [Cancel, speak_of (web_groups t ! 0), speak_of (web_groups t ! 1), Cancel]"
proof -
  have 1: "run [CallSpeak t onEnd, UtteranceEnd] s0 = playing s0 (web_groups t) onEnd 1"
    using job_progress [of t onEnd 1 s0] assms by (simp add: numeral_2_eq_2)
  have 2: "run [CallSpeak t onEnd, UtteranceEnd, CallStop] s0
             = stopSpeaking (playing s0 (web_groups t) onEnd 1)"
    using run_snoc [of "[CallSpeak t onEnd, UtteranceEnd]" CallStop s0] 1 by simp
  obtain a b gs where g: "web_groups t = a # b # gs"
    using assms by (cases "web_groups t"; cases "tl (web_groups t)") auto
  show ?thesis
    unfolding run_append 2 stop_playing by (simp add: g)
qed

theorem stop_cancels_job_witness:
  "2 \<le> length (web_groups three_runs) \<and>
   trace (run ([CallSpeak three_runs (Some ()), UtteranceEnd, CallStop] @
               replicate 3 UtteranceEnd) idle) =
     [Cancel, Speak [0x44F, 0x20] (Some RuRU), Speak [0x61, 0x20] (Some EnUS), Cancel]"
proof -
  have h: "2 \<le> length (web_groups three_runs)"
    by (simp add: three_runs_groups)
  from stop_cancels_job [OF h, of "Some ()" 3 idle] h show ?thesis
    by (simp add: three_runs_groups speak_of_def idle_def)
qed

text \<open>
  The claim as stated fails when the engine reports the end of the utterance that \<open>cancel\<close>
  removed: the handler of that utterance issues the third group, and the end of the third
  group invokes the callback.
\<close>

theorem stop_then_late_end_counterexample:
  "trace (run [CallSpeak three_runs (Some ()), UtteranceEnd, CallStop, CancelledEnd, UtteranceEnd]
            idle) =
     [Cancel, Speak [0x44F, 0x20] (Some RuRU), Speak [0x61, 0x20] (Some EnUS), Cancel,
      Speak [0x44F] (Some RuRU), Callback ()]"
  by (simp add: run_def speak_def three_runs_groups speakGroup_def synth_cancel_def
      synth_speak_def call_back_def stopSpeaking_def idle_def)

text \<open>
  C8. Empty input. If the input consists of whitespace only, or is empty once cleaned, the
  segmentation of either client yields no group, and \<open>speak\<close> does nothing but its initial
  cancel and the immediate call of the callback, if one was passed: no utterance is handed
  to the engine.
\<close>

theorem empty_input_is_silent:
  assumes "list_all is_space t \<or> cleanedText t = []"
  shows "web_groups t = [] \<and> native_groups t = [] \<and>
         speak t onEnd s =
           \<lparr>queue = [], cancelled = cancelled s @ queue s,
            trace = trace s @ Cancel # cb_effects onEnd\<rparr>"
proof -
  from assms have c: "cleanedText t = []"
    using cleaned_all_space by blast
  then have w: "web_groups t = []" by (rule web_groups_empty)
  with native_web_groups [of t] have n: "native_groups t = []" by simp
  from w n show ?thesis
    by (simp add: speak_empty finished_def)
qed

theorem empty_input_is_silent_witness:
  "list_all is_space (js ''   '') \<and>
   web_groups (js ''   '') = [] \<and> native_groups (js ''   '') = [] \<and>
   speak (js ''   '') (Some ()) idle = \<lparr>queue = [], cancelled = [], trace = [Cancel, Callback ()]\<rparr>"
proof -
  have h: "list_all is_space (js ''   '')" by code_simp
  then have "list_all is_space (js ''   '') \<or> cleanedText (js ''   '') = []" by simp
  from empty_input_is_silent [OF this, of "Some ()" idle] h show ?thesis
    by (simp add: idle_def cb_effects_def)
qed


section \<open>Properties of the extraction\<close>

subsection \<open>The second pattern never matches where the first does not\<close>

lemma last_close_brace: "last_close r = Some body \<Longrightarrow> RBRACE \<in> set r"
proof (induction r arbitrary: body)
  case Nil
  then show ?case by simp
next
  case (Cons c cs)
  show ?case
  proof (cases "last_close cs")
    case None
    with Cons.prems show ?thesis by (simp split: if_splits)
  next
    case (Some b)
    then have "RBRACE \<in> set cs" by (rule Cons.IH)
    then show ?thesis by simp
  qed
qed

lemma strategy2_at_braces:
  assumes "strategy2_at t = Some m"
  shows "\<exists>pre r. t = pre @ LBRACE # r \<and> RBRACE \<in> set r"
proof -
  from assms obtain r body where d: "dropWhile is_space (drop 7 t) = LBRACE # r"
    and l: "last_close r = Some body"
    by (auto simp: strategy2_at_def split: if_splits list.splits)
  have "t = take 7 t @ drop 7 t" by simp
  also have "drop 7 t = takeWhile is_space (drop 7 t) @ dropWhile is_space (drop 7 t)" by simp
  finally have "t = (take 7 t @ takeWhile is_space (drop 7 t)) @ LBRACE # r"
    unfolding d by simp
  with last_close_brace [OF l] show ?thesis by blast
qed

lemma strategy2_braces:
  "strategy2 t = Some m \<Longrightarrow> \<exists>pre r. t = pre @ LBRACE # r \<and> RBRACE \<in> set r"
proof (induction t)
  case Nil
  then show ?case by simp
next
  case (Cons c cs)
  show ?case
  proof (cases "strategy2_at (c # cs)")
    case (Some m')
    then show ?thesis by (rule strategy2_at_braces)
  next
    case None
    with Cons.prems have "strategy2 cs = Some m" by simp
    then obtain pre r where "cs = pre @ LBRACE # r" "RBRACE \<in> set r"
      using Cons.IH by blast
    then have "c # cs = (c # pre) @ LBRACE # r" by simp
    with \<open>RBRACE \<in> set r\<close> show ?thesis by blast
  qed
qed

lemma first_brace:
  "\<exists>r'. dropWhile (\<lambda>c. c \<noteq> LBRACE) (pre @ LBRACE # r) = LBRACE # r' \<and> set r \<subseteq> set r'"
proof (induction pre)
  case Nil
  show ?case by simp
next
  case (Cons c pre)
  show ?case
  proof (cases "c = LBRACE")
    case True
    then show ?thesis by auto
  next
    case False
    with Cons.IH show ?thesis by simp
  qed
qed

lemma strategy1_braces:
  assumes "RBRACE \<in> set r"
  shows "strategy1 (pre @ LBRACE # r) \<noteq> None"
proof -
  obtain r' where "dropWhile (\<lambda>c. c \<noteq> LBRACE) (pre @ LBRACE # r) = LBRACE # r'"
    and "set r \<subseteq> set r'"
    using first_brace by blast
  with assms show ?thesis by (auto simp: strategy1_def)
qed

lemma strategy2_needs_strategy1: "strategy1 t = None \<Longrightarrow> strategy2 t = None"
proof (rule ccontr)
  assume n: "strategy1 t = None" and "strategy2 t \<noteq> None"
  then obtain m where "strategy2 t = Some m" by auto
  then obtain pre r where "t = pre @ LBRACE # r" "RBRACE \<in> set r"
    using strategy2_braces by blast
  with strategy1_braces n show False by blast
qed

subsection \<open>What \<open>catch\<close> does\<close>

lemma victor_caught:
  "generateVictorAIResponse E True (Inr t) =
     (case victor_try E t of Inl e \<Rightarrow> Inr victor_fallback | Inr r \<Rightarrow> Inr r)"
  by (simp add: generateVictorAIResponse_def)

lemma word_caught:
  "fetchWordData E True (Inr t) =
     (case word_try E t of Inl e \<Rightarrow> Inr word_fallback | Inr r \<Rightarrow> Inr r)"
  by (simp add: fetchWordData_def)

lemma fail_victor: "strategies_fail E t \<Longrightarrow> \<exists>e. victor_try E t = Inl e"
  by (auto simp: strategies_fail_def victor_try_def split: option.splits)

lemma fail_word: "strategies_fail E t \<Longrightarrow> \<exists>e. word_try E t = Inl e"
  by (auto simp: strategies_fail_def word_try_def split: option.splits)

lemma victor_parsed:
  assumes "find_json t = Some m" and "JSON_parse E m = Some p"
  shows "generateVictorAIResponse E True (Inr t) =
           (case victor_fields E p of Inl e \<Rightarrow> Inr victor_fallback | Inr r \<Rightarrow> Inr r)"
  using assms by (simp add: victor_caught victor_try_def)

lemma victor_result_cases:
  assumes "generateVictorAIResponse E True (Inr t) = Inr res"
  shows "res = victor_fallback \<or>
         (\<exists>m p. find_json t = Some m \<and> JSON_parse E m = Some p \<and> victor_fields E p = Inr res)"
  using assms
  by (auto simp: victor_caught victor_try_def split: sum.splits option.splits)

lemma get_prop_not_null: "get_prop p k = Some v \<Longrightarrow> p \<noteq> JNull"
  by (cases p) simp_all

lemma or_undefined_Some: "or_undefined E x = Some v \<longleftrightarrow> x = Some v \<and> truthy E v"
  by (auto simp: or_undefined_def split: option.splits)


subsection \<open>Claims about the extraction\<close>

text \<open>
  C4. The extraction is total. With the model initialised, \<open>generateVictorAIResponse\<close> and
  \<open>fetchWordData\<close> return a record whatever the request to the model gave, a completion
  text or an exception; no exception of the parse reaches the caller. When neither
  pattern yields a text that parses, \<open>generateVictorAIResponse\<close> returns the record of
  the two fixed strings, and \<open>fetchWordData\<close> returns the record whose phonetic, examples
  and translation are the empty string, the empty list and the empty string.
\<close>

theorem extraction_never_throws:
  "(\<exists>r. generateVictorAIResponse E True c = Inr r) \<and>
   (\<exists>w. fetchWordData E True c = Inr w) \<and>
   (strategies_fail E t \<longrightarrow>
      generateVictorAIResponse E True (Inr t) =
        Inr \<lparr>response =
               JStr (js (''I'm sorry, I had trouble processing that. Could you try again? '' @
                         ''I'm here to help you learn Russian!'')),
             corrections = None, vocabularyTip = None, pronunciationTip = None,
             followUpQuestion =
               JStr (js ''What Russian words or phrases would you like to practice today?'')\<rparr> \<and>
      fetchWordData E True (Inr t) =
        Inr \<lparr>phonetic = JStr [], examples = JArr [], translation = JStr []\<rparr>)"
proof (intro conjI impI)
  show "\<exists>r. generateVictorAIResponse E True c = Inr r"
    by (simp add: generateVictorAIResponse_def split: sum.splits)
  show "\<exists>w. fetchWordData E True c = Inr w"
    by (simp add: fetchWordData_def split: sum.splits)
next
  assume f: "strategies_fail E t"
  from fail_victor [OF f] show "generateVictorAIResponse E True (Inr t) = Inr victor_fallback"
    by (auto simp: victor_caught)
  from fail_word [OF f] show "fetchWordData E True (Inr t) = Inr word_fallback"
    by (auto simp: word_caught)
qed

theorem extraction_never_throws_witness:
  "strategies_fail (table_engine []) (js ''Sorry, no JSON today.'') \<and>
   generateVictorAIResponse (table_engine []) True (Inr (js ''Sorry, no JSON today.'')) =
     Inr victor_fallback \<and>
   fetchWordData (table_engine []) True (Inr (js ''Sorry, no JSON today.'')) = Inr word_fallback"
proof -
  have h: "strategies_fail (table_engine []) (js ''Sorry, no JSON today.'')"
    by code_simp
  from extraction_never_throws [of "table_engine []" _ "js ''Sorry, no JSON today.''"] h
  show ?thesis by simp
qed

text \<open>
  C5, as amended. For a parsed object with a reply that is a non-empty string and with
  corrections that are a non-empty string instead of a list, the extraction does not
  fail: it returns the reply, and it returns the string as the corrections, since the
  guard on the corrections is truthiness and a length greater than zero, which a non-empty
  string has.
\<close>

theorem corrections_string_passes:
  assumes "find_json t = Some m" and "JSON_parse E m = Some p"
    and "get_prop p ''response'' = Some (JStr r)" and "r \<noteq> []"
    and "get_prop p ''corrections'' = Some (JStr c)" and "c \<noteq> []"
  shows "\<exists>res. generateVictorAIResponse E True (Inr t) = Inr res \<and>
           response res = JStr r \<and> corrections res = Some (JStr c)"
proof -
  from assms(3) have "p \<noteq> JNull" by (rule get_prop_not_null)
  then show ?thesis
    using assms by (simp add: victor_parsed victor_fields_def or_else_def)
qed

theorem corrections_string_passes_witness:
  "find_json corrections_json = Some corrections_json \<and>
   JSON_parse (table_engine [(corrections_json, corrections_value)]) corrections_json
     = Some corrections_value \<and>
   get_prop corrections_value ''response'' = Some (JStr (js ''Hi'')) \<and>
   js ''Hi'' \<noteq> [] \<and>
   get_prop corrections_value ''corrections'' = Some (JStr (js ''oops'')) \<and>
   js ''oops'' \<noteq> [] \<and>
   (\<exists>res. generateVictorAIResponse (table_engine [(corrections_json, corrections_value)]) True
            (Inr corrections_json) = Inr res \<and>
          response res = JStr (js ''Hi'') \<and> corrections res = Some (JStr (js ''oops'')))"
proof -
  have h: "find_json corrections_json = Some corrections_json \<and>
     JSON_parse (table_engine [(corrections_json, corrections_value)]) corrections_json
       = Some corrections_value \<and>
     get_prop corrections_value ''response'' = Some (JStr (js ''Hi'')) \<and>
     js ''Hi'' \<noteq> [] \<and>
     get_prop corrections_value ''corrections'' = Some (JStr (js ''oops'')) \<and>
     js ''oops'' \<noteq> []"
    by code_simp
  from corrections_string_passes
    [of corrections_json corrections_json "table_engine [(corrections_json, corrections_value)]"
        corrections_value "js ''Hi''" "js ''oops''"] h
  have "\<exists>res. generateVictorAIResponse (table_engine [(corrections_json, corrections_value)]) True
            (Inr corrections_json) = Inr res \<and>
          response res = JStr (js ''Hi'') \<and> corrections res = Some (JStr (js ''oops''))"
    by blast
  with h show ?thesis by blast
qed

text \<open>The claim as stated fails: the string is not omitted.\<close>

theorem corrections_string_counterexample:
  "victor_fields (table_engine []) corrections_value =
     Inr \<lparr>response = JStr (js ''Hi''),
          corrections = Some (JStr (js ''oops'')),
          vocabularyTip = None,
          pronunciationTip = None,
          followUpQuestion = JStr (js ''What Russian phrase would you like to learn?'')\<rparr>"
  by code_simp

text \<open>
  C6, as amended. The second pattern is tried only when the first finds no braces, and it
  then never matches, since it needs braces itself: the text handed to \<open>JSON.parse\<close> is
  always the match of the first pattern, and without one both functions return their
  defaults. When the first pattern finds a text whose parse fails, both functions return
  their defaults at once; the second pattern is not tried.
\<close>

theorem strategy_fallthrough:
  "find_json t = strategy1 t \<and>
   (strategy1 t = None \<longrightarrow>
      strategy2 t = None \<and>
      generateVictorAIResponse E True (Inr t) = Inr victor_fallback \<and>
      fetchWordData E True (Inr t) = Inr word_fallback) \<and>
   (strategy1 u = Some m \<and> JSON_parse E m = None \<longrightarrow>
      generateVictorAIResponse E True (Inr u) = Inr victor_fallback \<and>
      fetchWordData E True (Inr u) = Inr word_fallback)"
proof (intro conjI impI)
  show "find_json t = strategy1 t"
    by (simp add: find_json_def strategy2_needs_strategy1 split: option.splits)
next
  assume n: "strategy1 t = None"
  then show s2: "strategy2 t = None" by (rule strategy2_needs_strategy1)
  from n s2 show "generateVictorAIResponse E True (Inr t) = Inr victor_fallback"
    by (simp add: victor_caught victor_try_def find_json_def)
  from n s2 show "fetchWordData E True (Inr t) = Inr word_fallback"
    by (simp add: word_caught word_try_def find_json_def)
next
  assume "strategy1 u = Some m \<and> JSON_parse E m = None"
  then show "generateVictorAIResponse E True (Inr u) = Inr victor_fallback"
    by (simp add: victor_caught victor_try_def find_json_def)
next
  assume "strategy1 u = Some m \<and> JSON_parse E m = None"
  then show "fetchWordData E True (Inr u) = Inr word_fallback"
    by (simp add: word_caught word_try_def find_json_def)
qed

theorem strategy_fallthrough_witness:
  "strategy1 (js ''Sorry, no JSON today.'') = None \<and>
   strategy2 (js ''Sorry, no JSON today.'') = None \<and>
   strategy1 fenced_text = Some fenced_greedy \<and>
   JSON_parse (table_engine [(fenced_json, fenced_value)]) fenced_greedy = None \<and>
   generateVictorAIResponse (table_engine [(fenced_json, fenced_value)]) True
     (Inr (js ''Sorry, no JSON today.'')) = Inr victor_fallback \<and>
   generateVictorAIResponse (table_engine [(fenced_json, fenced_value)]) True
     (Inr fenced_text) = Inr victor_fallback \<and>
   fetchWordData (table_engine [(fenced_json, fenced_value)]) True
     (Inr fenced_text) = Inr word_fallback"
proof -
  have h1: "strategy1 (js ''Sorry, no JSON today.'') = None"
    by code_simp
  have h2: "strategy1 fenced_text = Some fenced_greedy \<and>
            JSON_parse (table_engine [(fenced_json, fenced_value)]) fenced_greedy = None"
    by code_simp
  from strategy_fallthrough
    [of "js ''Sorry, no JSON today.''" "table_engine [(fenced_json, fenced_value)]"
        fenced_text fenced_greedy] h1 h2
  show ?thesis by simp
qed

text \<open>
  The claim as stated fails on a completion with a brace before a well-formed fenced block:
  the parse of the greedy match fails, the second pattern would find the block and its
  interior parses, and yet the result is the defaults.
\<close>

theorem fenced_block_counterexample:
  "strategy1 fenced_text = Some fenced_greedy \<and>
   JSON_parse (table_engine [(fenced_json, fenced_value)]) fenced_greedy = None \<and>
   strategy2 fenced_text = Some fenced_json \<and>
   JSON_parse (table_engine [(fenced_json, fenced_value)]) fenced_json = Some fenced_value \<and>
   generateVictorAIResponse (table_engine [(fenced_json, fenced_value)]) True (Inr fenced_text)
     = Inr victor_fallback"
  by code_simp

text \<open>
  C9, as amended. In every result of \<open>generateVictorAIResponse\<close>, \<open>vocabularyTip\<close> and
  \<open>pronunciationTip\<close> hold a value exactly when the parsed payload supplied one that is
  truthy: every object, and also every array, non-empty string, \<open>true\<close> and truthy number.
  Only an absent, null, false, zero or empty-string value is omitted.
\<close>

theorem tips_truthiness_guarded:
  assumes "generateVictorAIResponse E True (Inr t) = Inr res"
  shows "(vocabularyTip res = Some v \<longleftrightarrow>
            truthy E v \<and>
            (\<exists>m p. find_json t = Some m \<and> JSON_parse E m = Some p \<and>
                   get_prop p ''vocabularyTip'' = Some v)) \<and>
         (pronunciationTip res = Some w \<longleftrightarrow>
            truthy E w \<and>
            (\<exists>m p. find_json t = Some m \<and> JSON_parse E m = Some p \<and>
                   get_prop p ''pronunciationTip'' = Some w))"
proof (cases "\<exists>m p. find_json t = Some m \<and> JSON_parse E m = Some p \<and> p \<noteq> JNull")
  case True
  then obtain m p where mp: "find_json t = Some m" "JSON_parse E m = Some p" and p: "p \<noteq> JNull"
    by blast
  from assms mp p have res: "res = \<lparr>
        response = or_else E (get_prop p ''response'')
                     (JStr (js ''I'm here to help you learn Russian!'')),
        corrections =
          (case get_prop p ''corrections'' of
             None \<Rightarrow> None
           | Some c \<Rightarrow> if truthy E c \<and> length_gt_zero E c then Some c else None),
        vocabularyTip = or_undefined E (get_prop p ''vocabularyTip''),
        pronunciationTip = or_undefined E (get_prop p ''pronunciationTip''),
        followUpQuestion = or_else E (get_prop p ''followUpQuestion'')
                             (JStr (js ''What Russian phrase would you like to learn?''))\<rparr>"
    by (simp add: victor_parsed victor_fields_def)
  show ?thesis
    using mp by (auto simp: res or_undefined_Some)
next
  case False
  with victor_result_cases [OF assms] have fb: "res = victor_fallback"
    by (auto simp: victor_fields_def split: if_splits)
  from False have "\<And>m p k x. find_json t = Some m \<Longrightarrow> JSON_parse E m = Some p \<Longrightarrow>
                     get_prop p k = Some x \<Longrightarrow> False"
    using get_prop_not_null by blast
  then show ?thesis
    by (auto simp: fb)
qed

theorem tips_truthiness_guarded_witness:
  "generateVictorAIResponse (table_engine [(tips_json, tips_value)]) True (Inr tips_json) =
     Inr \<lparr>response = JStr (js ''Hi''),
          corrections = None,
          vocabularyTip = Some (JStr (js ''dom'')),
          pronunciationTip = Some (JBool True),
          followUpQuestion = JStr (js ''What Russian phrase would you like to learn?'')\<rparr> \<and>
   truthy (table_engine [(tips_json, tips_value)]) (JStr (js ''dom'')) \<and>
   (\<exists>m p. find_json tips_json = Some m \<and>
          JSON_parse (table_engine [(tips_json, tips_value)]) m = Some p \<and>
          get_prop p ''vocabularyTip'' = Some (JStr (js ''dom''))) \<and>
   truthy (table_engine [(tips_json, tips_value)]) (JBool True) \<and>
   (\<exists>m p. find_json tips_json = Some m \<and>
          JSON_parse (table_engine [(tips_json, tips_value)]) m = Some p \<and>
          get_prop p ''pronunciationTip'' = Some (JBool True))"
proof -
  have h: "generateVictorAIResponse (table_engine [(tips_json, tips_value)]) True (Inr tips_json) =
     Inr \<lparr>response = JStr (js ''Hi''),
          corrections = None,
          vocabularyTip = Some (JStr (js ''dom'')),
          pronunciationTip = Some (JBool True),
          followUpQuestion = JStr (js ''What Russian phrase would you like to learn?'')\<rparr>"
    by code_simp
  from tips_truthiness_guarded [OF h, of "JStr (js ''dom'')" "JBool True"] h
  show ?thesis by simp
qed

text \<open>The claim as stated fails: a string and a boolean are kept as tips.\<close>

theorem tips_string_counterexample:
  "victor_fields (table_engine []) tips_value =
     Inr \<lparr>response = JStr (js ''Hi''),
          corrections = None,
          vocabularyTip = Some (JStr (js ''dom'')),
          pronunciationTip = Some (JBool True),
          followUpQuestion = JStr (js ''What Russian phrase would you like to learn?'')\<rparr>"
  by code_simp

end
